theory Spec2Isabelle
  imports Main "HOL-Library.Word"
begin

section \<open>cpcache2go: the cache table and its expiration scheduler\<close>

text \<open>
  A shallow embedding of \<^verbatim>\<open>cachetable.go\<close>, the item file and the error file of
  package \<^verbatim>\<open>cpcache2go\<close>.

  \<^item> A \<^verbatim>\<open>*CacheItem\<close> is an address into an explicit heap; the heap is a total
    function from addresses to item structs together with the next free address, so that
    two pointers to the same item are the same address and a write through one is seen
    through the other.
  \<^item> \<^verbatim>\<open>time.Time\<close> and \<^verbatim>\<open>time.Duration\<close> are \<open>int\<close> counts of nanoseconds.
    Every reading of \<^verbatim>\<open>time.Now()\<close> is an argument of the operation that makes it
    (\<open>t1\<close> for the reading in \<^verbatim>\<open>NewCacheItem\<close> or \<^verbatim>\<open>KeepAlive\<close>, \<open>t2\<close> for the
    one at the head of \<^verbatim>\<open>expirationCheck\<close>), and so is the later moment \<open>t3\<close> at which
    \<^verbatim>\<open>expirationCheck\<close> calls \<^verbatim>\<open>time.AfterFunc\<close>, after its loop and the callbacks
    of the loop. The readings carry Go's monotonic clock, so an idle
    time \<^verbatim>\<open>now.Sub(accessedOn)\<close> lies between zero and the uptime of the process, and
    \<^verbatim>\<open>lifeSpan - now.Sub(accessedOn)\<close> is computed only where the idle time is below
    the life span: neither the saturation of \<^verbatim>\<open>Sub\<close> nor a wrap-around of the
    subtraction is reachable, and none is modelled.
  \<^item> \<^verbatim>\<open>accessCount\<close> is an \<^verbatim>\<open>int64\<close>: a 64-bit word read with \<open>sint\<close>.
  \<^item> A callback (\<^verbatim>\<open>addedItem\<close>, \<^verbatim>\<open>aboutToDeleteItem\<close>, \<^verbatim>\<open>aboutToExpire\<close>)
    is an opaque identifier; calling it appends the call, paired with the item map as it
    is at that moment, to the trace of the world. Callbacks are taken not to call back
    into the table and not to write to items. The data loader is a function on the
    heap: it may allocate an item or hand out an existing pointer.
  \<^item> \<^verbatim>\<open>range table.items\<close> visits the keys in an order Go leaves open: the order is
    the argument \<open>ks\<close> of every operation that ranges over the map.
  \<^item> The logger is left out. The mutexes have no effect on the values computed by one
    operation running alone and are left out of the operations; for \<^verbatim>\<open>NotFoundAdd\<close> and
    the functions it calls, a second transcription (the names ending in \<open>_locked\<close>)
    returns, beside the same result, the calls on the table's mutex and the accesses to
    the item map in the order the source makes them.
\<close>

subsection \<open>Items\<close>

type_synonym addr = nat
type_synonym callback = nat

record ('k, 'd) CacheItem =
  key :: 'k
  data :: 'd
  lifeSpan :: int
  createdOn :: int
  accessedOn :: int
  accessCount :: "64 word"
  aboutToExpire :: "callback option"

record ('k, 'd) Heap =
  cells :: "addr \<Rightarrow> ('k, 'd) CacheItem"
  nextAddr :: addr

text \<open>\<^verbatim>\<open>NewCacheItem\<close>: a fresh struct, both time stamps the one clock reading.\<close>

definition NewCacheItem ::
  "'k \<Rightarrow> int \<Rightarrow> 'd \<Rightarrow> int \<Rightarrow> ('k, 'd) Heap \<Rightarrow> addr \<times> ('k, 'd) Heap" where
  "NewCacheItem k ls d t h =
     (nextAddr h,
      h\<lparr>cells := (cells h)(nextAddr h :=
             \<lparr>key = k, data = d, lifeSpan = ls, createdOn = t, accessedOn = t,
              accessCount = 0, aboutToExpire = None\<rparr>),
        nextAddr := Suc (nextAddr h)\<rparr>)"

definition KeepAlive :: "addr \<Rightarrow> int \<Rightarrow> ('k, 'd) Heap \<Rightarrow> ('k, 'd) Heap" where
  "KeepAlive item t h =
     h\<lparr>cells := (cells h)(item :=
          (cells h item)\<lparr>accessedOn := t, accessCount := accessCount (cells h item) + 1\<rparr>)\<rparr>"

definition SetAboutToExpireCallback ::
  "addr \<Rightarrow> callback option \<Rightarrow> ('k, 'd) Heap \<Rightarrow> ('k, 'd) Heap" where
  "SetAboutToExpireCallback item f h =
     h\<lparr>cells := (cells h)(item := (cells h item)\<lparr>aboutToExpire := f\<rparr>)\<rparr>"

subsection \<open>The table\<close>

datatype error = ErrKeyNotFound | ErrKeyNotFoundOrLoadable

text \<open>
  A \<^verbatim>\<open>*time.Timer\<close> made by \<^verbatim>\<open>time.AfterFunc(d, ...)\<close> at clock reading \<open>t\<close> is
  \<open>Pending t d\<close>: it fires at \<open>t + d\<close>. After \<^verbatim>\<open>Stop()\<close> it is \<open>Stopped\<close>.
\<close>

datatype Timer = Pending int int | Stopped

type_synonym ('k, 'd) loader =
  "'k \<Rightarrow> 'd list \<Rightarrow> ('k, 'd) Heap \<Rightarrow> addr option \<times> ('k, 'd) Heap"

record ('k, 'd) CacheTable =
  name :: string
  items :: "'k \<rightharpoonup> addr"
  cleanupTimer :: "Timer option"
  cleanupInterval :: int
  loadData :: "('k, 'd) loader option"
  addedItem :: "callback option"
  aboutToDeleteItem :: "callback option"

datatype ('k, 'd) call =
    AddedItemCall callback addr
  | AboutToDeleteItemCall callback addr
  | AboutToExpireCall callback 'k
  | LoadDataCall 'k "'d list"

record ('k, 'd) World =
  table :: "('k, 'd) CacheTable"
  heap :: "('k, 'd) Heap"
  trace :: "(('k, 'd) call \<times> ('k \<rightharpoonup> addr)) list"

text \<open>The struct literal of \<^verbatim>\<open>Cache\<close> in \<^verbatim>\<open>cache.go\<close>: every other field is zero.\<close>

definition Cache :: "string \<Rightarrow> ('k, 'd) CacheTable" where
  "Cache nm =
     \<lparr>name = nm, items = Map.empty, cleanupTimer = None, cleanupInterval = 0,
      loadData = None, addedItem = None, aboutToDeleteItem = None\<rparr>"

definition Count :: "('k, 'd) World \<Rightarrow> int" where
  "Count w = int (card (dom (items (table w))))"

definition SetDataLoader :: "('k, 'd) loader option \<Rightarrow> ('k, 'd) World \<Rightarrow> ('k, 'd) World" where
  "SetDataLoader f w = w\<lparr>table := (table w)\<lparr>loadData := f\<rparr>\<rparr>"

definition SetAddedItemCallback :: "callback option \<Rightarrow> ('k, 'd) World \<Rightarrow> ('k, 'd) World" where
  "SetAddedItemCallback f w = w\<lparr>table := (table w)\<lparr>addedItem := f\<rparr>\<rparr>"

definition SetAboutToDeleteItemCallback ::
  "callback option \<Rightarrow> ('k, 'd) World \<Rightarrow> ('k, 'd) World" where
  "SetAboutToDeleteItemCallback f w = w\<lparr>table := (table w)\<lparr>aboutToDeleteItem := f\<rparr>\<rparr>"

definition invoke ::
  "('k, 'd) call \<Rightarrow> ('k, 'd) World \<Rightarrow> ('k, 'd) World" where
  "invoke c w = w\<lparr>trace := trace w @ [(c, items (table w))]\<rparr>"

subsection \<open>Deleting\<close>

definition deleteInternal ::
  "'k \<Rightarrow> ('k, 'd) World \<Rightarrow> (error + addr) \<times> ('k, 'd) World" where
  "deleteInternal k w =
     (case items (table w) k of
        None \<Rightarrow> (Inl ErrKeyNotFound, w)
      | Some r \<Rightarrow>
          let w1 = (case aboutToDeleteItem (table w) of
                      None \<Rightarrow> w
                    | Some f \<Rightarrow> invoke (AboutToDeleteItemCall f r) w);
              w2 = (case aboutToExpire (cells (heap w1) r) of
                      None \<Rightarrow> w1
                    | Some g \<Rightarrow> invoke (AboutToExpireCall g k) w1)
          in (Inr r, w2\<lparr>table := (table w2)\<lparr>items := (items (table w2))(k := None)\<rparr>\<rparr>))"

definition Delete ::
  "'k \<Rightarrow> ('k, 'd) World \<Rightarrow> (error + addr) \<times> ('k, 'd) World" where
  "Delete k w = deleteInternal k w"

definition Exists :: "'k \<Rightarrow> ('k, 'd) World \<Rightarrow> bool" where
  "Exists k w = (items (table w) k \<noteq> None)"

subsection \<open>The expiration check\<close>

definition stopTimer :: "Timer option \<Rightarrow> Timer option" where
  "stopTimer tm = (case tm of None \<Rightarrow> None | Some _ \<Rightarrow> Some Stopped)"

text \<open>
  The body of the \<^verbatim>\<open>for key, item := range table.items\<close> loop, on the pair of
  \<^verbatim>\<open>smallestDuration\<close> and the world. A key deleted before the loop reaches it is not
  produced by \<^verbatim>\<open>range\<close>.
\<close>

fun expirationLoop ::
  "int \<Rightarrow> 'k list \<Rightarrow> int \<times> ('k, 'd) World \<Rightarrow> int \<times> ('k, 'd) World" where
  "expirationLoop now [] (sd, w) = (sd, w)"
| "expirationLoop now (k # ks) (sd, w) =
     (case items (table w) k of
        None \<Rightarrow> expirationLoop now ks (sd, w)
      | Some item \<Rightarrow>
          let ls = lifeSpan (cells (heap w) item);
              acc = accessedOn (cells (heap w) item)
          in if ls = 0 then expirationLoop now ks (sd, w)
             else if now - acc \<ge> ls
               then expirationLoop now ks (sd, snd (deleteInternal k w))
             else if sd = 0 \<or> ls - (now - acc) < sd
               then expirationLoop now ks (ls - (now - acc), w)
             else expirationLoop now ks (sd, w))"

text \<open>
  \<^verbatim>\<open>expirationCheck\<close> reads the clock once, before the loop (\<open>now\<close>), and calls
  \<^verbatim>\<open>time.AfterFunc\<close> after the loop and the callbacks of its deletions, at the later
  moment \<open>arm\<close>: the new timer fires \<open>smallestDuration\<close> after \<open>arm\<close>.
\<close>

definition expirationCheck ::
  "int \<Rightarrow> int \<Rightarrow> 'k list \<Rightarrow> ('k, 'd) World \<Rightarrow> ('k, 'd) World" where
  "expirationCheck now arm ks w =
     (let w1 = w\<lparr>table := (table w)\<lparr>cleanupTimer := stopTimer (cleanupTimer (table w))\<rparr>\<rparr>;
          (smallestDuration, w2) = expirationLoop now ks (0, w1);
          tb = (table w2)\<lparr>cleanupInterval := smallestDuration\<rparr>
      in w2\<lparr>table :=
              (if smallestDuration > 0
               then tb\<lparr>cleanupTimer := Some (Pending arm smallestDuration)\<rparr>
               else tb)\<rparr>)"

subsection \<open>Adding\<close>

definition addInternal ::
  "addr \<Rightarrow> int \<Rightarrow> int \<Rightarrow> 'k list \<Rightarrow> ('k, 'd) World \<Rightarrow> ('k, 'd) World" where
  "addInternal item t2 t3 ks w =
     (let it = cells (heap w) item;
          w1 = w\<lparr>table := (table w)\<lparr>items := (items (table w))(key it \<mapsto> item)\<rparr>\<rparr>;
          expDur = cleanupInterval (table w1);
          w2 = (case addedItem (table w1) of
                  None \<Rightarrow> w1
                | Some f \<Rightarrow> invoke (AddedItemCall f item) w1)
      in if lifeSpan it > 0 \<and> (expDur = 0 \<or> lifeSpan it < expDur)
         then expirationCheck t2 t3 ks w2
         else w2)"

definition Add ::
  "'k \<Rightarrow> int \<Rightarrow> 'd \<Rightarrow> int \<Rightarrow> int \<Rightarrow> int \<Rightarrow> 'k list \<Rightarrow> ('k, 'd) World
     \<Rightarrow> addr \<times> ('k, 'd) World" where
  "Add k ls d t1 t2 t3 ks w =
     (let (item, h) = NewCacheItem k ls d t1 (heap w)
      in (item, addInternal item t2 t3 ks (w\<lparr>heap := h\<rparr>)))"


subsection \<open>Looking up\<close>

definition Value ::
  "'k \<Rightarrow> 'd list \<Rightarrow> int \<Rightarrow> int \<Rightarrow> int \<Rightarrow> 'k list \<Rightarrow> ('k, 'd) World
     \<Rightarrow> (error + addr) \<times> ('k, 'd) World" where
  "Value k args t1 t2 t3 ks w =
     (case items (table w) k of
        Some r \<Rightarrow> (Inr r, w\<lparr>heap := KeepAlive r t1 (heap w)\<rparr>)
      | None \<Rightarrow>
          (case loadData (table w) of
             Some f \<Rightarrow>
               let (res, h) = f k args (heap w);
                   w1 = (invoke (LoadDataCall k args) w)\<lparr>heap := h\<rparr>
               in (case res of
                     Some item \<Rightarrow>
                       (Inr item,
                        snd (Add k (lifeSpan (cells h item)) (data (cells h item)) t1 t2 t3 ks w1))
                   | None \<Rightarrow> (Inl ErrKeyNotFoundOrLoadable, w1))
           | None \<Rightarrow> (Inl ErrKeyNotFound, w)))"

definition Flush :: "('k, 'd) World \<Rightarrow> ('k, 'd) World" where
  "Flush w =
     w\<lparr>table := (table w)\<lparr>items := Map.empty, cleanupInterval := 0,
                          cleanupTimer := stopTimer (cleanupTimer (table w))\<rparr>\<rparr>"

subsection \<open>The most accessed items\<close>

record 'k CacheItemPair =
  Key :: 'k
  AccessCount :: "64 word"

definition Less :: "'k CacheItemPair \<Rightarrow> 'k CacheItemPair \<Rightarrow> bool" where
  "Less p q = (sint (AccessCount p) > sint (AccessCount q))"

text \<open>
  \<^verbatim>\<open>sort.Sort\<close> is Go's library sort: it returns a permutation of the slice in which no
  element is \<^verbatim>\<open>Less\<close> than one before it, and promises nothing on the order of equal
  elements. It is an insertion sort on \<open>Less\<close> here, which is what the library runs on
  a slice of at most twelve elements; since \<open>ks\<close> ranges over every order of the keys,
  every sorted permutation is the result for some \<open>ks\<close>.
\<close>

fun insertPair :: "'k CacheItemPair \<Rightarrow> 'k CacheItemPair list \<Rightarrow> 'k CacheItemPair list" where
  "insertPair x [] = [x]"
| "insertPair x (y # ys) = (if Less y x then y # insertPair x ys else x # y # ys)"

definition sort_Sort :: "'k CacheItemPair list \<Rightarrow> 'k CacheItemPair list" where
  "sort_Sort p = foldr insertPair p []"

text \<open>The first loop of \<^verbatim>\<open>MostAccessed\<close>: one pair for each key the range produces.\<close>

fun pairList :: "('k, 'd) World \<Rightarrow> 'k list \<Rightarrow> 'k CacheItemPair list" where
  "pairList w [] = []"
| "pairList w (k # ks) =
     (case items (table w) k of
        None \<Rightarrow> pairList w ks
      | Some v \<Rightarrow> \<lparr>Key = k, AccessCount = accessCount (cells (heap w) v)\<rparr> # pairList w ks)"

text \<open>The second loop, with its counter \<^verbatim>\<open>c\<close>.\<close>

fun topItems :: "('k, 'd) World \<Rightarrow> int \<Rightarrow> int \<Rightarrow> 'k CacheItemPair list \<Rightarrow> addr list" where
  "topItems w c n [] = []"
| "topItems w c n (v # vs) =
     (if c \<ge> n then []
      else (case items (table w) (Key v) of
              Some item \<Rightarrow> item # topItems w (c + 1) n vs
            | None \<Rightarrow> topItems w (c + 1) n vs))"

definition MostAccessed :: "int \<Rightarrow> 'k list \<Rightarrow> ('k, 'd) World \<Rightarrow> addr list" where
  "MostAccessed n ks w = topItems w 0 n (sort_Sort (pairList w ks))"

subsection \<open>The table's mutex\<close>

text \<open>
  The calls on \<^verbatim>\<open>table.Lock\<close>, \<^verbatim>\<open>Unlock\<close>, \<^verbatim>\<open>RLock\<close> and \<^verbatim>\<open>RUnlock\<close>, and the accesses
  to \<^verbatim>\<open>table.items\<close>: a lookup of a key, a key produced by \<^verbatim>\<open>range\<close>, a store and a
  \<^verbatim>\<open>delete\<close>.
\<close>

datatype 'k mutexEvent =
    Lock | Unlock | RLock | RUnlock
  | Lookup 'k | Visit 'k | Store 'k addr | Remove 'k

text \<open>
  The functions below are \<^verbatim>\<open>deleteInternal\<close>, the loop and the body of
  \<^verbatim>\<open>expirationCheck\<close>, \<^verbatim>\<open>addInternal\<close>, \<^verbatim>\<open>Add\<close>, \<^verbatim>\<open>Exists\<close> and \<^verbatim>\<open>NotFoundAdd\<close> once
  more, each returning beside its result the list of these events in the order of the
  source lines that make them.
\<close>

definition deleteInternal_locked ::
  "'k \<Rightarrow> ('k, 'd) World \<Rightarrow> ((error + addr) \<times> ('k, 'd) World) \<times> 'k mutexEvent list" where
  "deleteInternal_locked k w =
     (case items (table w) k of
        None \<Rightarrow> ((Inl ErrKeyNotFound, w), [Lookup k])
      | Some r \<Rightarrow>
          let w1 = (case aboutToDeleteItem (table w) of
                      None \<Rightarrow> w
                    | Some f \<Rightarrow> invoke (AboutToDeleteItemCall f r) w);
              w2 = (case aboutToExpire (cells (heap w1) r) of
                      None \<Rightarrow> w1
                    | Some g \<Rightarrow> invoke (AboutToExpireCall g k) w1)
          in ((Inr r, w2\<lparr>table := (table w2)\<lparr>items := (items (table w2))(k := None)\<rparr>\<rparr>),
              [Lookup k, Unlock, Lock, Remove k]))"

fun expirationLoop_locked ::
  "int \<Rightarrow> 'k list \<Rightarrow> int \<times> ('k, 'd) World \<Rightarrow> (int \<times> ('k, 'd) World) \<times> 'k mutexEvent list" where
  "expirationLoop_locked now [] (sd, w) = ((sd, w), [])"
| "expirationLoop_locked now (k # ks) (sd, w) =
     (case items (table w) k of
        None \<Rightarrow> expirationLoop_locked now ks (sd, w)
      | Some item \<Rightarrow>
          let ls = lifeSpan (cells (heap w) item);
              acc = accessedOn (cells (heap w) item)
          in if ls = 0
               then (let (r, l) = expirationLoop_locked now ks (sd, w) in (r, Visit k # l))
             else if now - acc \<ge> ls
               then (let (d, l1) = deleteInternal_locked k w;
                         (r, l2) = expirationLoop_locked now ks (sd, snd d)
                     in (r, Visit k # l1 @ l2))
             else if sd = 0 \<or> ls - (now - acc) < sd
               then (let (r, l) = expirationLoop_locked now ks (ls - (now - acc), w)
                     in (r, Visit k # l))
             else (let (r, l) = expirationLoop_locked now ks (sd, w) in (r, Visit k # l)))"

definition expirationCheck_locked ::
  "int \<Rightarrow> int \<Rightarrow> 'k list \<Rightarrow> ('k, 'd) World \<Rightarrow> ('k, 'd) World \<times> 'k mutexEvent list" where
  "expirationCheck_locked now arm ks w =
     (let w1 = w\<lparr>table := (table w)\<lparr>cleanupTimer := stopTimer (cleanupTimer (table w))\<rparr>\<rparr>;
          ((smallestDuration, w2), l) = expirationLoop_locked now ks (0, w1);
          tb = (table w2)\<lparr>cleanupInterval := smallestDuration\<rparr>
      in (w2\<lparr>table :=
               (if smallestDuration > 0
                then tb\<lparr>cleanupTimer := Some (Pending arm smallestDuration)\<rparr>
                else tb)\<rparr>,
          Lock # l @ [Unlock]))"

definition addInternal_locked ::
  "addr \<Rightarrow> int \<Rightarrow> int \<Rightarrow> 'k list \<Rightarrow> ('k, 'd) World \<Rightarrow> ('k, 'd) World \<times> 'k mutexEvent list" where
  "addInternal_locked item t2 t3 ks w =
     (let it = cells (heap w) item;
          w1 = w\<lparr>table := (table w)\<lparr>items := (items (table w))(key it \<mapsto> item)\<rparr>\<rparr>;
          expDur = cleanupInterval (table w1);
          w2 = (case addedItem (table w1) of
                  None \<Rightarrow> w1
                | Some f \<Rightarrow> invoke (AddedItemCall f item) w1)
      in if lifeSpan it > 0 \<and> (expDur = 0 \<or> lifeSpan it < expDur)
         then (let (w3, l) = expirationCheck_locked t2 t3 ks w2
               in (w3, Store (key it) item # Unlock # l))
         else (w2, [Store (key it) item, Unlock]))"

definition Add_locked ::
  "'k \<Rightarrow> int \<Rightarrow> 'd \<Rightarrow> int \<Rightarrow> int \<Rightarrow> int \<Rightarrow> 'k list \<Rightarrow> ('k, 'd) World
     \<Rightarrow> (addr \<times> ('k, 'd) World) \<times> 'k mutexEvent list" where
  "Add_locked k ls d t1 t2 t3 ks w =
     (let (item, h) = NewCacheItem k ls d t1 (heap w);
          (w', l) = addInternal_locked item t2 t3 ks (w\<lparr>heap := h\<rparr>)
      in ((item, w'), Lock # l))"

definition Exists_locked :: "'k \<Rightarrow> ('k, 'd) World \<Rightarrow> bool \<times> 'k mutexEvent list" where
  "Exists_locked k w = (items (table w) k \<noteq> None, [RLock, Lookup k, RUnlock])"


subsection \<open>Notions used to state the properties\<close>

text \<open>
  The test of the loop body: the key holds an item with a nonzero life span that has been
  idle for at least that long at clock reading \<open>now\<close>.
\<close>

definition expired :: "int \<Rightarrow> ('k, 'd) World \<Rightarrow> 'k \<Rightarrow> bool" where
  "expired now w k =
     (case items (table w) k of
        None \<Rightarrow> False
      | Some a \<Rightarrow> lifeSpan (cells (heap w) a) \<noteq> 0
                 \<and> lifeSpan (cells (heap w) a) \<le> now - accessedOn (cells (heap w) a))"

text \<open>
  The remaining time to live \<^verbatim>\<open>lifeSpan - now.Sub(accessedOn)\<close> of the item under a
  key, as a list: empty when the key is absent or its item never expires.
\<close>

definition ttl :: "int \<Rightarrow> ('k, 'd) World \<Rightarrow> 'k \<Rightarrow> int list" where
  "ttl now w k =
     (case items (table w) k of
        None \<Rightarrow> []
      | Some a \<Rightarrow> if lifeSpan (cells (heap w) a) = 0 then []
                 else [lifeSpan (cells (heap w) a) - (now - accessedOn (cells (heap w) a))])"

definition ttls :: "int \<Rightarrow> ('k, 'd) World \<Rightarrow> 'k list \<Rightarrow> int list" where
  "ttls now w ks = concat (map (ttl now w) ks)"

definition liveTtls :: "int \<Rightarrow> ('k, 'd) World \<Rightarrow> 'k list \<Rightarrow> int list" where
  "liveTtls now w ks = concat (map (\<lambda>k. if expired now w k then [] else ttl now w k) ks)"

text \<open>The running minimum \<^verbatim>\<open>smallestDuration\<close>, with zero for "none yet".\<close>

fun smallest :: "int \<Rightarrow> int list \<Rightarrow> int" where
  "smallest sd [] = sd"
| "smallest sd (r # rs) = smallest (if sd = 0 \<or> r < sd then r else sd) rs"

fun armed :: "Timer option \<Rightarrow> bool" where
  "armed (Some (Pending t d)) = True"
| "armed _ = False"

text \<open>\<^verbatim>\<open>Delete\<close> called on each key of a list in turn.\<close>

definition deleteAll :: "'k list \<Rightarrow> ('k, 'd) World \<Rightarrow> ('k, 'd) World" where
  "deleteAll ks w = fold (\<lambda>k v. snd (Delete k v)) ks w"

text \<open>
  The callbacks one deletion of the item \<open>r\<close> under key \<open>k\<close> makes, in order, each
  with the item map it runs against.
\<close>

definition deleteCalls ::
  "'k \<Rightarrow> addr \<Rightarrow> ('k, 'd) World \<Rightarrow> (('k, 'd) call \<times> ('k \<rightharpoonup> addr)) list" where
  "deleteCalls k r w =
     (case aboutToDeleteItem (table w) of
        None \<Rightarrow> []
      | Some f \<Rightarrow> [(AboutToDeleteItemCall f r, items (table w))])
     @ (case aboutToExpire (cells (heap w) r) of
          None \<Rightarrow> []
        | Some g \<Rightarrow> [(AboutToExpireCall g k, items (table w))])"

text \<open>
  The world \<^verbatim>\<open>Add\<close> reaches before its expiration check: the new item allocated, the map
  updated and the \<^verbatim>\<open>addedItem\<close> callback made.
\<close>

definition inserted :: "'k \<Rightarrow> int \<Rightarrow> 'd \<Rightarrow> int \<Rightarrow> ('k, 'd) World \<Rightarrow> ('k, 'd) World" where
  "inserted k ls d t1 w =
     (let w1 = w\<lparr>heap := snd (NewCacheItem k ls d t1 (heap w)),
                 table := (table w)\<lparr>items := (items (table w))(k \<mapsto> nextAddr (heap w))\<rparr>\<rparr>
      in case addedItem (table w) of
           None \<Rightarrow> w1
         | Some f \<Rightarrow> invoke (AddedItemCall f (nextAddr (heap w))) w1)"

text \<open>
  A run of expiration checks, as the timer starts them one after the other: each with its
  clock reading, the moment it arms the next timer and the order of its range.
\<close>

definition runChecks ::
  "(int \<times> int \<times> 'k list) list \<Rightarrow> ('k, 'd) World \<Rightarrow> ('k, 'd) World" where
  "runChecks cs w = fold (\<lambda>c v. expirationCheck (fst c) (fst (snd c)) (snd (snd c)) v) cs w"

text \<open>The access count of the item at an address, as the signed number it is.\<close>

definition countOf :: "('k, 'd) World \<Rightarrow> addr \<Rightarrow> int" where
  "countOf w a = sint (accessCount (cells (heap w) a))"

subsection \<open>The operations as steps, and the scheduler's invariant\<close>




text \<open>The clock reading at which a pending timer fires.\<close>

fun wakeTime :: "Timer option \<Rightarrow> int option" where
  "wakeTime (Some (Pending t d)) = Some (t + d)"
| "wakeTime _ = None"




subsection \<open>Example worlds\<close>

definition blank :: "(string, string) CacheItem" where
  "blank = \<lparr>key = [], data = [], lifeSpan = 0, createdOn = 0, accessedOn = 0,
            accessCount = 0, aboutToExpire = None\<rparr>"

definition world0 :: "(string, string) World" where
  "world0 = \<lparr>table = Cache ''t'', heap = \<lparr>cells = (\<lambda>_. blank), nextAddr = 0\<rparr>, trace = []\<rparr>"

text \<open>
  Three items: \<open>a\<close> (life span 10, idle since 0, read 5 times, with its own callback 7),
  \<open>b\<close> (never expires, read once, callback 8) and \<open>c\<close> (life span 30, idle since 5, read
  3 times); the table has the callback 1 for deletions and a timer armed at 0 for 10.
\<close>

definition world3 :: "(string, string) World" where
  "world3 =
     \<lparr>table = \<lparr>name = ''t'', items = [''a'' \<mapsto> 0, ''b'' \<mapsto> 1, ''c'' \<mapsto> 2],
               cleanupTimer = Some (Pending 0 10), cleanupInterval = 10,
               loadData = None, addedItem = None, aboutToDeleteItem = Some 1\<rparr>,
      heap = \<lparr>cells = (\<lambda>_. blank)
                (0 := \<lparr>key = ''a'', data = ''x'', lifeSpan = 10, createdOn = 0, accessedOn = 0,
                       accessCount = 5, aboutToExpire = Some 7\<rparr>,
                 1 := \<lparr>key = ''b'', data = ''y'', lifeSpan = 0, createdOn = 1, accessedOn = 1,
                       accessCount = 1, aboutToExpire = Some 8\<rparr>,
                 2 := \<lparr>key = ''c'', data = ''z'', lifeSpan = 30, createdOn = 5, accessedOn = 5,
                       accessCount = 3, aboutToExpire = None\<rparr>),
              nextAddr = 3\<rparr>,
      trace = []\<rparr>"

text \<open>
  A read of a key at one clock reading, and a call of \<^verbatim>\<open>SetAboutToExpireCallback\<close> on
  the item at an address, as steps on the world.
\<close>

definition keep :: "string \<Rightarrow> int \<Rightarrow> (string, string) World \<Rightarrow> (string, string) World" where
  "keep k t w = snd (Value k [] t t t [] w)"

definition setCb :: "addr \<Rightarrow> callback \<Rightarrow> (string, string) World \<Rightarrow> (string, string) World" where
  "setCb a f w = w\<lparr>heap := SetAboutToExpireCallback a (Some f) (heap w)\<rparr>"

text \<open>The empty table after \<^verbatim>\<open>Add("n", -1, "x")\<close> at clock reading 0.\<close>

definition worldNeg :: "(string, string) World" where
  "worldNeg = snd (Add ''n'' (- 1) ''x'' 0 0 0 [''n''] world0)"

text \<open>A loader that declines, and one that makes a new item for the key it is asked.\<close>

definition nilLoader :: "(string, string) loader" where
  "nilLoader k args h = (None, h)"

definition newLoader :: "(string, string) loader" where
  "newLoader k args h = (let (a, h') = NewCacheItem k 0 (''loaded '' @ k) 4 h in (Some a, h'))"



text \<open>A loader whose item carries another key than the one it is asked.\<close>

definition otherLoader :: "(string, string) loader" where
  "otherLoader k args h = (let (a, h') = NewCacheItem ''other'' 0 ''v'' 4 h in (Some a, h'))"

definition worldLoad :: "(string, string) World" where
  "worldLoad = SetDataLoader (Some newLoader) world3"

definition worldLoad0 :: "(string, string) World" where
  "worldLoad0 = SetDataLoader (Some newLoader) world0"


definition worldOther3 :: "(string, string) World" where
  "worldOther3 = SetDataLoader (Some otherLoader) world3"


section \<open>Properties\<close>

subsection \<open>The example table is one the operations build\<close>

lemma world3_reachable:
  "world3 =
     fold (\<lambda>f w. f w)
       [\<lambda>w. snd (Add ''a'' 10 ''x'' 0 0 0 [''a''] w),
        keep ''a'' 0, keep ''a'' 0, keep ''a'' 0, keep ''a'' 0, keep ''a'' 0, setCb 0 7,
        \<lambda>w. snd (Add ''b'' 0 ''y'' 1 1 1 [''a'', ''b''] w),
        keep ''b'' 1, setCb 1 8,
        \<lambda>w. snd (Add ''c'' 30 ''z'' 5 5 5 [''a'', ''b'', ''c''] w),
        keep ''c'' 5, keep ''c'' 5, keep ''c'' 5,
        SetAboutToDeleteItemCallback (Some 1)]
       world0"
  by (simp add: world3_def world0_def blank_def Cache_def keep_def setCb_def Value_def KeepAlive_def
        SetAboutToExpireCallback_def SetAboutToDeleteItemCallback_def Add_def addInternal_def
        NewCacheItem_def expirationCheck_def stopTimer_def Let_def numeral_2_eq_2
        numeral_3_eq_3)

subsection \<open>What a deletion and the expiration loop leave alone\<close>

lemma deleteInternal_heap [simp]: "heap (snd (deleteInternal k w)) = heap w"
  by (simp add: deleteInternal_def invoke_def Let_def split: option.splits)

lemma deleteInternal_items [simp]:
  "items (table (snd (deleteInternal k w))) = (items (table w))(k := None)"
  by (auto simp: deleteInternal_def invoke_def Let_def split: option.splits)

lemma deleteInternal_fields [simp]:
  "cleanupTimer (table (snd (deleteInternal k w))) = cleanupTimer (table w)"
  "cleanupInterval (table (snd (deleteInternal k w))) = cleanupInterval (table w)"
  "loadData (table (snd (deleteInternal k w))) = loadData (table w)"
  "addedItem (table (snd (deleteInternal k w))) = addedItem (table w)"
  "aboutToDeleteItem (table (snd (deleteInternal k w))) = aboutToDeleteItem (table w)"
  "name (table (snd (deleteInternal k w))) = name (table w)"
  by (simp_all add: deleteInternal_def invoke_def Let_def split: option.splits)

lemma loop_heap [simp]: "heap (snd (expirationLoop now ks (sd, w))) = heap w"
  by (induction ks arbitrary: sd w) (simp_all add: Let_def split: option.splits)

lemma loop_fields [simp]:
  "cleanupTimer (table (snd (expirationLoop now ks (sd, w)))) = cleanupTimer (table w)"
  "cleanupInterval (table (snd (expirationLoop now ks (sd, w)))) = cleanupInterval (table w)"
  "loadData (table (snd (expirationLoop now ks (sd, w)))) = loadData (table w)"
  "addedItem (table (snd (expirationLoop now ks (sd, w)))) = addedItem (table w)"
  "aboutToDeleteItem (table (snd (expirationLoop now ks (sd, w)))) = aboutToDeleteItem (table w)"
  "name (table (snd (expirationLoop now ks (sd, w)))) = name (table w)"
  by (induction ks arbitrary: sd w; simp add: Let_def split: option.splits)+

lemma expired_delete_other:
  "k' \<noteq> k \<Longrightarrow> expired now (snd (deleteInternal k w)) k' = expired now w k'"
  by (simp add: expired_def split: option.splits)

lemma loop_items:
  "items (table (snd (expirationLoop now ks (sd, w)))) k =
     (if k \<in> set ks \<and> expired now w k then None else items (table w) k)"
proof (induction ks arbitrary: sd w)
  case Nil
  then show ?case by simp
next
  case (Cons x ks)
  show ?case
  proof (cases "expired now w x")
    case True
    then obtain a where a: "items (table w) x = Some a" "lifeSpan (cells (heap w) a) \<noteq> 0"
      "lifeSpan (cells (heap w) a) \<le> now - accessedOn (cells (heap w) a)"
      by (auto simp: expired_def split: option.splits)
    have "items (table (snd (expirationLoop now (x # ks) (sd, w)))) k =
          items (table (snd (expirationLoop now ks (sd, snd (deleteInternal x w))))) k"
      using a by (simp add: Let_def)
    also have "\<dots> = (if k \<in> set ks \<and> expired now (snd (deleteInternal x w)) k then None
                     else items (table (snd (deleteInternal x w))) k)"
      by (rule Cons.IH)
    also have "\<dots> = (if k \<in> set (x # ks) \<and> expired now w k then None else items (table w) k)"
      using True by (cases "k = x") (auto simp: expired_delete_other)
    finally show ?thesis .
  next
    case False
    have "\<exists>sd'. expirationLoop now (x # ks) (sd, w) = expirationLoop now ks (sd', w)"
      using False by (auto simp: expired_def Let_def split: option.splits)
    then obtain sd' where "expirationLoop now (x # ks) (sd, w) = expirationLoop now ks (sd', w)" ..
    then show ?thesis using Cons.IH [of sd' w] False by auto
  qed
qed

lemma ttl_delete_live:
  "expired now w k \<Longrightarrow>
   (if expired now (snd (deleteInternal k w)) k' then [] else ttl now (snd (deleteInternal k w)) k')
   = (if expired now w k' then [] else ttl now w k')"
  by (cases "k' = k") (auto simp: expired_def ttl_def split: option.splits)

lemma liveTtls_delete:
  "expired now w k \<Longrightarrow> liveTtls now (snd (deleteInternal k w)) ks = liveTtls now w ks"
  by (simp add: liveTtls_def ttl_delete_live)

lemma loop_fst:
  "fst (expirationLoop now ks (sd, w)) = smallest sd (liveTtls now w ks)"
proof (induction ks arbitrary: sd w)
  case Nil
  then show ?case by (simp add: liveTtls_def)
next
  case (Cons x ks)
  have split: "liveTtls now w (x # ks) = (if expired now w x then [] else ttl now w x) @ liveTtls now w ks"
    by (simp add: liveTtls_def)
  show ?case
  proof (cases "items (table w) x")
    case None
    then show ?thesis using Cons.IH [of sd w] by (simp add: split expired_def ttl_def)
  next
    case (Some a)
    show ?thesis
    proof (cases "lifeSpan (cells (heap w) a) = 0")
      case True
      then show ?thesis using Some Cons.IH [of sd w] by (simp add: split expired_def ttl_def)
    next
      case nz: False
      show ?thesis
      proof (cases "lifeSpan (cells (heap w) a) \<le> now - accessedOn (cells (heap w) a)")
        case True
        then have ex: "expired now w x" using Some nz by (simp add: expired_def)
        show ?thesis using Some nz True ex Cons.IH [of sd "snd (deleteInternal x w)"]
          by (simp add: split Let_def liveTtls_delete)
      next
        case False
        then have ex: "\<not> expired now w x" using Some by (simp add: expired_def)
        have t: "ttl now w x = [lifeSpan (cells (heap w) a) - (now - accessedOn (cells (heap w) a))]"
          using Some nz by (simp add: ttl_def)
        show ?thesis using Some nz False ex t Cons.IH [of _ w]
          by (simp add: split Let_def)
      qed
    qed
  qed
qed

lemma smallest_pos:
  "0 < sd \<Longrightarrow> \<forall>r \<in> set rs. 0 < r \<Longrightarrow> smallest sd rs = Min (insert sd (set rs))"
proof (induction rs arbitrary: sd)
  case Nil
  then show ?case by simp
next
  case (Cons r rs)
  then have "smallest sd (r # rs) = Min (insert (min r sd) (set rs))"
    by (auto simp: min_def)
  also have "\<dots> = Min (insert sd (set (r # rs)))"
    by (cases "set rs = {}") (auto simp: min.commute min.left_commute)
  finally show ?case .
qed

lemma smallest_zero:
  "\<forall>r \<in> set rs. 0 < r \<Longrightarrow> smallest 0 rs = (if rs = [] then 0 else Min (set rs))"
proof (cases rs)
  case Nil
  then show ?thesis by simp
next
  case (Cons r rs')
  assume "\<forall>r \<in> set rs. 0 < r"
  then show ?thesis using Cons smallest_pos [of r rs'] by simp
qed

lemma live_ttl_pos: "\<not> expired now w k \<Longrightarrow> r \<in> set (ttl now w k) \<Longrightarrow> 0 < r"
  by (cases "items (table w) k") (auto simp: expired_def ttl_def split: if_splits)

lemma liveTtls_pos: "r \<in> set (liveTtls now w ks) \<Longrightarrow> 0 < r"
  by (auto simp: liveTtls_def dest: live_ttl_pos split: if_splits)

lemma expired_cong:
  "items (table v) = items (table w) \<Longrightarrow> heap v = heap w \<Longrightarrow> expired now v = expired now w"
  by (rule ext) (simp add: expired_def split: option.splits)

lemma ttl_cong:
  "items (table v) = items (table w) \<Longrightarrow> heap v = heap w \<Longrightarrow> ttl now v = ttl now w"
  by (rule ext) (simp add: ttl_def split: option.splits)

lemma liveTtls_cong:
  "items (table v) = items (table w) \<Longrightarrow> heap v = heap w \<Longrightarrow> liveTtls now v ks = liveTtls now w ks"
proof -
  assume a: "items (table v) = items (table w)" "heap v = heap w"
  have "expired now v = expired now w" and "ttl now v = ttl now w"
    using a by (rule expired_cong, rule ttl_cong)
  then show ?thesis by (simp add: liveTtls_def cong: if_cong)
qed

lemma not_armed_stopTimer [simp]: "\<not> armed (stopTimer tm)"
  by (cases tm) (simp_all add: stopTimer_def)

lemma loop_deleteAll:
  "distinct ks \<Longrightarrow>
   snd (expirationLoop now ks (sd, w)) = deleteAll (filter (expired now w) ks) w"
proof (induction ks arbitrary: sd w)
  case Nil
  then show ?case by (simp add: deleteAll_def)
next
  case (Cons x ks)
  then have d: "distinct ks" and nx: "x \<notin> set ks" by simp_all
  show ?case
  proof (cases "expired now w x")
    case True
    then obtain a where a: "items (table w) x = Some a" "lifeSpan (cells (heap w) a) \<noteq> 0"
      "lifeSpan (cells (heap w) a) \<le> now - accessedOn (cells (heap w) a)"
      by (auto simp: expired_def split: option.splits)
    have "k' \<noteq> x" if "k' \<in> set ks" for k'
      using nx that by auto
    then have f: "filter (expired now (snd (deleteInternal x w))) ks = filter (expired now w) ks"
      by (intro filter_cong) (simp_all add: expired_delete_other)
    have "snd (expirationLoop now (x # ks) (sd, w)) =
          snd (expirationLoop now ks (sd, snd (deleteInternal x w)))"
      using a by (simp add: Let_def)
    also have "\<dots> = deleteAll (filter (expired now w) ks) (snd (deleteInternal x w))"
      using Cons.IH [OF d, of sd "snd (deleteInternal x w)"] f by simp
    also have "\<dots> = deleteAll (filter (expired now w) (x # ks)) w"
      using True by (simp add: deleteAll_def Delete_def)
    finally show ?thesis .
  next
    case False
    have "\<exists>sd'. expirationLoop now (x # ks) (sd, w) = expirationLoop now ks (sd', w)"
      using False by (auto simp: expired_def Let_def split: option.splits)
    then obtain sd' where "expirationLoop now (x # ks) (sd, w) = expirationLoop now ks (sd', w)" ..
    then show ?thesis using Cons.IH [OF d, of sd' w] False by simp
  qed
qed

lemma deleteInternal_trace_timer:
  "trace (snd (deleteInternal k (w\<lparr>table := (table w)\<lparr>cleanupTimer := tm\<rparr>\<rparr>))) =
   trace (snd (deleteInternal k w))"
  by (simp add: deleteInternal_def invoke_def Let_def split: option.splits)

lemma deleteInternal_timer_commute:
  "snd (deleteInternal k (w\<lparr>table := (table w)\<lparr>cleanupTimer := tm\<rparr>\<rparr>)) =
   (snd (deleteInternal k w))\<lparr>table := (table (snd (deleteInternal k w)))\<lparr>cleanupTimer := tm\<rparr>\<rparr>"
  by (simp add: deleteInternal_def invoke_def Let_def split: option.splits)

lemma deleteAll_timer_commute:
  "deleteAll ks (w\<lparr>table := (table w)\<lparr>cleanupTimer := tm\<rparr>\<rparr>) =
   (deleteAll ks w)\<lparr>table := (table (deleteAll ks w))\<lparr>cleanupTimer := tm\<rparr>\<rparr>"
proof (induction ks arbitrary: w)
  case Nil
  then show ?case by (simp add: deleteAll_def)
next
  case (Cons k ks)
  have "deleteAll (k # ks) (w\<lparr>table := (table w)\<lparr>cleanupTimer := tm\<rparr>\<rparr>) =
        deleteAll ks (snd (deleteInternal k (w\<lparr>table := (table w)\<lparr>cleanupTimer := tm\<rparr>\<rparr>)))"
    by (simp add: deleteAll_def Delete_def)
  also have "\<dots> = deleteAll ks ((snd (deleteInternal k w))\<lparr>table := (table (snd (deleteInternal k w)))\<lparr>cleanupTimer := tm\<rparr>\<rparr>)"
    by (simp only: deleteInternal_timer_commute)
  also have "\<dots> = (deleteAll ks (snd (deleteInternal k w)))\<lparr>table := (table (deleteAll ks (snd (deleteInternal k w))))\<lparr>cleanupTimer := tm\<rparr>\<rparr>"
    by (rule Cons.IH)
  finally show ?case by (simp add: deleteAll_def Delete_def)
qed

lemma check_split:
  "expirationCheck now arm ks w =
     (let w1 = w\<lparr>table := (table w)\<lparr>cleanupTimer := stopTimer (cleanupTimer (table w))\<rparr>\<rparr>;
          sd = fst (expirationLoop now ks (0, w1));
          w2 = snd (expirationLoop now ks (0, w1));
          tb = (table w2)\<lparr>cleanupInterval := sd\<rparr>
      in w2\<lparr>table := (if sd > 0 then tb\<lparr>cleanupTimer := Some (Pending arm sd)\<rparr> else tb)\<rparr>)"
  by (simp add: expirationCheck_def Let_def split: prod.splits)

lemma check_heap [simp]: "heap (expirationCheck now arm ks w) = heap w"
  by (simp add: check_split Let_def)

lemma check_items:
  "items (table (expirationCheck now arm ks w)) k =
     (if k \<in> set ks \<and> expired now w k then None else items (table w) k)"
proof -
  let ?w1 = "w\<lparr>table := (table w)\<lparr>cleanupTimer := stopTimer (cleanupTimer (table w))\<rparr>\<rparr>"
  have "expired now ?w1 = expired now w" by (rule expired_cong) simp_all
  then show ?thesis by (simp add: check_split Let_def loop_items)
qed

lemma check_interval:
  "cleanupInterval (table (expirationCheck now arm ks w)) = smallest 0 (liveTtls now w ks)"
proof -
  let ?w1 = "w\<lparr>table := (table w)\<lparr>cleanupTimer := stopTimer (cleanupTimer (table w))\<rparr>\<rparr>"
  have "liveTtls now ?w1 ks = liveTtls now w ks" by (rule liveTtls_cong) simp_all
  then show ?thesis by (simp add: check_split Let_def loop_fst)
qed

lemma check_timer:
  "cleanupTimer (table (expirationCheck now arm ks w)) =
     (if smallest 0 (liveTtls now w ks) > 0
      then Some (Pending arm (smallest 0 (liveTtls now w ks)))
      else stopTimer (cleanupTimer (table w)))"
proof -
  let ?w1 = "w\<lparr>table := (table w)\<lparr>cleanupTimer := stopTimer (cleanupTimer (table w))\<rparr>\<rparr>"
  have "liveTtls now ?w1 ks = liveTtls now w ks" by (rule liveTtls_cong) simp_all
  then show ?thesis by (simp add: check_split Let_def loop_fst)
qed

lemma check_fields [simp]:
  "loadData (table (expirationCheck now arm ks w)) = loadData (table w)"
  "addedItem (table (expirationCheck now arm ks w)) = addedItem (table w)"
  "aboutToDeleteItem (table (expirationCheck now arm ks w)) = aboutToDeleteItem (table w)"
  "name (table (expirationCheck now arm ks w)) = name (table w)"
  by (simp_all add: check_split Let_def)

lemma check_trace:
  "distinct ks \<Longrightarrow>
   trace (expirationCheck now arm ks w) = trace (deleteAll (filter (expired now w) ks) w)"
proof -
  assume d: "distinct ks"
  let ?w1 = "w\<lparr>table := (table w)\<lparr>cleanupTimer := stopTimer (cleanupTimer (table w))\<rparr>\<rparr>"
  have e: "expired now ?w1 = expired now w" by (rule expired_cong) simp_all
  have "trace (expirationCheck now arm ks w) = trace (snd (expirationLoop now ks (0, ?w1)))"
    by (simp add: check_split Let_def)
  also have "\<dots> = trace (deleteAll (filter (expired now w) ks) ?w1)"
    using loop_deleteAll [OF d, of now 0 ?w1] e by simp
  also have "\<dots> = trace (deleteAll (filter (expired now w) ks) w)"
    by (simp add: deleteAll_timer_commute)
  finally show ?thesis .
qed

lemma check_ttls:
  "ttls now (expirationCheck now arm ks w) ks = liveTtls now w ks"
proof -
  have "ttl now (expirationCheck now arm ks w) k = (if expired now w k then [] else ttl now w k)"
    if "k \<in> set ks" for k
    using that by (simp add: ttl_def expired_def check_items split: option.splits)
  then show ?thesis by (simp add: ttls_def liveTtls_def cong: map_cong)
qed

lemma smallest_live:
  "smallest 0 (liveTtls now w ks) =
     (if liveTtls now w ks = [] then 0 else Min (set (liveTtls now w ks)))"
  by (rule smallest_zero) (auto dest: liveTtls_pos)

lemma smallest_live_pos:
  "liveTtls now w ks \<noteq> [] \<Longrightarrow> 0 < smallest 0 (liveTtls now w ks)"
proof -
  assume ne: "liveTtls now w ks \<noteq> []"
  then have "Min (set (liveTtls now w ks)) \<in> set (liveTtls now w ks)"
    by (intro Min_in) simp_all
  then show ?thesis using ne by (simp add: smallest_live liveTtls_pos)
qed

subsection \<open>The expiration check\<close>

text \<open>
  Claim C1, as amended. When \<^verbatim>\<open>expirationCheck\<close> runs at clock reading \<open>now\<close>, over the keys
  of the table in any order \<open>ks\<close>: exactly the keys whose item has a nonzero life span
  (positive or negative) and an idle time \<open>now - accessedOn\<close> of at least that life span
  are removed, every other key keeps its item, and no item is written to; the callbacks
  made are those of \<^verbatim>\<open>Delete\<close> called on the removed keys in the order of the range;
  afterwards \<^verbatim>\<open>cleanupInterval\<close> is the minimum remaining time to live
  \<open>lifeSpan - (now - accessedOn)\<close> over the items left that have a nonzero life span and a
  timer, armed at the moment \<open>arm\<close> at which the check calls \<^verbatim>\<open>time.AfterFunc\<close>, is
  pending for that duration, or the interval is zero and no timer is pending when no
  such item is left.
\<close>

theorem expirationCheck_deletes_expired_and_rearms:
  assumes "distinct ks" and "set ks = dom (items (table w))"
  shows "(\<forall>k. items (table (expirationCheck now arm ks w)) k =
               (if expired now w k then None else items (table w) k))
       \<and> heap (expirationCheck now arm ks w) = heap w
       \<and> trace (expirationCheck now arm ks w) = trace (deleteAll (filter (expired now w) ks) w)
       \<and> cleanupInterval (table (expirationCheck now arm ks w)) =
           (if ttls now (expirationCheck now arm ks w) ks = [] then 0
            else Min (set (ttls now (expirationCheck now arm ks w) ks)))
       \<and> (if ttls now (expirationCheck now arm ks w) ks = []
          then \<not> armed (cleanupTimer (table (expirationCheck now arm ks w)))
          else cleanupTimer (table (expirationCheck now arm ks w)) =
                 Some (Pending arm (Min (set (ttls now (expirationCheck now arm ks w) ks)))))"
proof -
  have i: "items (table (expirationCheck now arm ks w)) k =
             (if expired now w k then None else items (table w) k)" for k
  proof (cases "k \<in> set ks")
    case True
    then show ?thesis by (simp add: check_items)
  next
    case False
    then have "items (table w) k = None" using assms(2) by auto
    then show ?thesis by (simp add: check_items)
  qed
  have t: "trace (expirationCheck now arm ks w) = trace (deleteAll (filter (expired now w) ks) w)"
    using assms(1) by (rule check_trace)
  have c: "cleanupInterval (table (expirationCheck now arm ks w)) =
           (if ttls now (expirationCheck now arm ks w) ks = [] then 0
            else Min (set (ttls now (expirationCheck now arm ks w) ks)))"
    by (simp only: check_ttls check_interval smallest_live)
  have m: "(if ttls now (expirationCheck now arm ks w) ks = []
          then \<not> armed (cleanupTimer (table (expirationCheck now arm ks w)))
          else cleanupTimer (table (expirationCheck now arm ks w)) =
                 Some (Pending arm (Min (set (ttls now (expirationCheck now arm ks w) ks)))))"
  proof (cases "liveTtls now w ks = []")
    case True
    then show ?thesis by (simp add: check_ttls check_timer)
  next
    case False
    then show ?thesis using smallest_live_pos [OF False]
      by (simp add: check_ttls check_timer smallest_live)
  qed
  show ?thesis using i t c m by simp
qed

theorem expirationCheck_deletes_expired_and_rearms_witness:
  "distinct [''c'', ''a'', ''b''] \<and> set [''c'', ''a'', ''b''] = dom (items (table world3))
   \<and> items (table (expirationCheck 12 13 [''c'', ''a'', ''b''] world3)) ''a'' = None
   \<and> items (table (expirationCheck 12 13 [''c'', ''a'', ''b''] world3)) ''b'' = Some 1
   \<and> items (table (expirationCheck 12 13 [''c'', ''a'', ''b''] world3)) ''c'' = Some 2
   \<and> trace (expirationCheck 12 13 [''c'', ''a'', ''b''] world3) =
       [(AboutToDeleteItemCall 1 0, items (table world3)),
        (AboutToExpireCall 7 ''a'', items (table world3))]
   \<and> cleanupInterval (table (expirationCheck 12 13 [''c'', ''a'', ''b''] world3)) = 23
   \<and> cleanupTimer (table (expirationCheck 12 13 [''c'', ''a'', ''b''] world3)) = Some (Pending 13 23)"
proof -
  have h: "distinct [''c'', ''a'', ''b'']" "set [''c'', ''a'', ''b''] = dom (items (table world3))"
    by (auto simp: world3_def)
  have e: "expired 12 world3 ''a''" "\<not> expired 12 world3 ''b''" "\<not> expired 12 world3 ''c''"
    by (simp_all add: expired_def world3_def)
  have t: "ttls 12 (expirationCheck 12 13 [''c'', ''a'', ''b''] world3) [''c'', ''a'', ''b''] = [23]"
    by (simp add: check_ttls liveTtls_def e) (simp add: ttl_def world3_def)
  have d: "trace (deleteAll [''a''] world3) =
       [(AboutToDeleteItemCall 1 0, items (table world3)),
        (AboutToExpireCall 7 ''a'', items (table world3))]"
    by (simp add: deleteAll_def Delete_def deleteInternal_def invoke_def Let_def world3_def)
  have i: "items (table world3) ''b'' = Some 1" "items (table world3) ''c'' = Some 2"
    by (simp_all add: world3_def)
  show ?thesis
    using h expirationCheck_deletes_expired_and_rearms [OF h, of 12 13] e t d i by simp
qed

text \<open>
  Claim C1 as stated fails: an item added with the life span \<open>-1\<close> has no positive life
  span, and the check deletes it.
\<close>

theorem expirationCheck_deletes_negative_lifeSpan:
  "items (table worldNeg) ''n'' = Some 0
   \<and> \<not> 0 < lifeSpan (cells (heap worldNeg) 0)
   \<and> items (table (expirationCheck 0 0 [''n''] worldNeg)) ''n'' = None"
  by (simp add: worldNeg_def world0_def Cache_def Add_def addInternal_def NewCacheItem_def
        expirationCheck_def deleteInternal_def stopTimer_def Let_def)

subsection \<open>Delete\<close>

text \<open>
  Claim C4. \<^verbatim>\<open>Delete\<close> of an absent key fails with \<^verbatim>\<open>ErrKeyNotFound\<close> and leaves the
  world as it is. On a present key it returns the item, and what it adds to the trace is
  the table's \<^verbatim>\<open>aboutToDeleteItem\<close> callback (if set) on the item, then the item's own
  \<^verbatim>\<open>aboutToExpire\<close> callback (if set) on the key, each of them run while the key is still
  in the map; the key is gone from the map afterwards, and no item is written to.
\<close>

theorem Delete_callbacks_then_removal:
  "(items (table w) k = None \<longrightarrow> Delete k w = (Inl ErrKeyNotFound, w))
   \<and> (\<forall>r. items (table w) k = Some r \<longrightarrow>
         fst (Delete k w) = Inr r
       \<and> trace (snd (Delete k w)) = trace w @ deleteCalls k r w
       \<and> (\<forall>c \<in> set (deleteCalls k r w). snd c k = Some r)
       \<and> items (table (snd (Delete k w))) = (items (table w))(k := None)
       \<and> heap (snd (Delete k w)) = heap w)"
  by (auto simp: Delete_def deleteInternal_def invoke_def deleteCalls_def Let_def
           split: option.splits)

theorem Delete_callbacks_then_removal_witness:
  "items (table world3) ''zz'' = None \<and> Delete ''zz'' world3 = (Inl ErrKeyNotFound, world3)
   \<and> items (table world3) ''a'' = Some 0
   \<and> fst (Delete ''a'' world3) = Inr 0
   \<and> trace (snd (Delete ''a'' world3)) =
       [(AboutToDeleteItemCall 1 0, items (table world3)),
        (AboutToExpireCall 7 ''a'', items (table world3))]
   \<and> items (table (snd (Delete ''a'' world3))) ''a'' = None"
proof -
  have a: "items (table world3) ''zz'' = None" "items (table world3) ''a'' = Some 0"
    by (simp_all add: world3_def)
  have c: "deleteCalls ''a'' 0 world3 =
       [(AboutToDeleteItemCall 1 0, items (table world3)),
        (AboutToExpireCall 7 ''a'', items (table world3))]"
    by (simp add: deleteCalls_def world3_def)
  have t: "trace world3 = []" by (simp add: world3_def)
  show ?thesis
    using a c t Delete_callbacks_then_removal [of world3 "''zz''"]
      Delete_callbacks_then_removal [of world3 "''a''"]
    by simp
qed

subsection \<open>Flush\<close>

text \<open>
  Claim C7. After \<^verbatim>\<open>Flush\<close> the item map is empty, \<^verbatim>\<open>Count\<close> is 0, the cleanup interval
  is zero and no timer is pending; the trace is unchanged, so neither the table's
  \<^verbatim>\<open>aboutToDeleteItem\<close> nor any item's \<^verbatim>\<open>aboutToExpire\<close> callback was called.
\<close>

theorem Flush_clears_without_callbacks:
  "items (table (Flush w)) = Map.empty \<and> Count (Flush w) = 0
   \<and> cleanupInterval (table (Flush w)) = 0
   \<and> \<not> armed (cleanupTimer (table (Flush w)))
   \<and> trace (Flush w) = trace w \<and> heap (Flush w) = heap w"
  by (simp add: Flush_def Count_def)

theorem Flush_clears_without_callbacks_witness:
  "aboutToDeleteItem (table world3) = Some 1
   \<and> aboutToExpire (cells (heap world3) 0) = Some 7
   \<and> Count world3 = 3 \<and> armed (cleanupTimer (table world3))
   \<and> Count (Flush world3) = 0 \<and> \<not> armed (cleanupTimer (table (Flush world3)))
   \<and> cleanupInterval (table (Flush world3)) = 0
   \<and> trace (Flush world3) = []"
proof -
  have "trace world3 = []" by (simp add: world3_def)
  moreover have "Count world3 = 3" by (simp add: world3_def Count_def)
  moreover have "armed (cleanupTimer (table world3))" by (simp add: world3_def)
  moreover have "aboutToDeleteItem (table world3) = Some 1"
    "aboutToExpire (cells (heap world3) 0) = Some 7" by (simp_all add: world3_def)
  ultimately show ?thesis using Flush_clears_without_callbacks [of world3] by simp
qed

subsection \<open>Value\<close>

text \<open>
  Claim C2. \<^verbatim>\<open>Value\<close> succeeds with the stored item when the key is present. When the key
  is absent it fails with \<^verbatim>\<open>ErrKeyNotFound\<close> if no loader is set, fails with
  \<^verbatim>\<open>ErrKeyNotFoundOrLoadable\<close> if the loader returns nil, and succeeds with the loader's
  item if the loader returns one; it has no other error.
\<close>

theorem Value_outcomes:
  "(\<forall>r. items (table w) k = Some r \<longrightarrow> fst (Value k args t1 t2 t3 ks w) = Inr r)
   \<and> (items (table w) k = None \<and> loadData (table w) = None \<longrightarrow>
        fst (Value k args t1 t2 t3 ks w) = Inl ErrKeyNotFound)
   \<and> (\<forall>f. items (table w) k = None \<and> loadData (table w) = Some f
           \<and> fst (f k args (heap w)) = None \<longrightarrow>
        fst (Value k args t1 t2 t3 ks w) = Inl ErrKeyNotFoundOrLoadable)
   \<and> (\<forall>f item. items (table w) k = None \<and> loadData (table w) = Some f
           \<and> fst (f k args (heap w)) = Some item \<longrightarrow>
        fst (Value k args t1 t2 t3 ks w) = Inr item)
   \<and> (\<forall>e. fst (Value k args t1 t2 t3 ks w) = Inl e \<longrightarrow>
        e = ErrKeyNotFound \<or> e = ErrKeyNotFoundOrLoadable)"
proof -
  have "e = ErrKeyNotFound \<or> e = ErrKeyNotFoundOrLoadable" for e
    by (cases e) simp_all
  then show ?thesis
    by (auto simp: Value_def Let_def split: option.splits prod.splits)
qed

theorem Value_outcomes_witness:
  "items (table world3) ''a'' = Some 0
   \<and> fst (Value ''a'' [] 6 6 6 [''a'', ''b'', ''c''] world3) = Inr 0
   \<and> items (table world3) ''q'' = None \<and> loadData (table world3) = None
   \<and> fst (Value ''q'' [] 6 6 6 [''a'', ''b'', ''c'', ''q''] world3) = Inl ErrKeyNotFound
   \<and> fst (Value ''q'' [] 6 6 6 [''a'', ''b'', ''c'', ''q''] (SetDataLoader (Some nilLoader) world3))
       = Inl ErrKeyNotFoundOrLoadable
   \<and> fst (Value ''q'' [] 6 6 6 [''a'', ''b'', ''c'', ''q''] (SetDataLoader (Some newLoader) world3))
       = Inr 3"
proof -
  have a: "items (table world3) ''a'' = Some 0" "items (table world3) ''q'' = None"
    "loadData (table world3) = None"
    by (simp_all add: world3_def)
  have b: "items (table (SetDataLoader (Some nilLoader) world3)) ''q'' = None"
    "loadData (table (SetDataLoader (Some nilLoader) world3)) = Some nilLoader"
    "fst (nilLoader ''q'' [] (heap (SetDataLoader (Some nilLoader) world3))) = None"
    by (simp_all add: world3_def SetDataLoader_def nilLoader_def)
  have c: "items (table (SetDataLoader (Some newLoader) world3)) ''q'' = None"
    "loadData (table (SetDataLoader (Some newLoader) world3)) = Some newLoader"
    "fst (newLoader ''q'' [] (heap (SetDataLoader (Some newLoader) world3))) = Some 3"
    by (simp_all add: world3_def SetDataLoader_def newLoader_def NewCacheItem_def)
  show ?thesis
    using a b c
      Value_outcomes [of world3 "''a''" "[]" 6 6 6 "[''a'', ''b'', ''c'']"]
      Value_outcomes [of world3 "''q''" "[]" 6 6 6 "[''a'', ''b'', ''c'', ''q'']"]
      Value_outcomes [of "SetDataLoader (Some nilLoader) world3" "''q''" "[]" 6 6 6 "[''a'', ''b'', ''c'', ''q'']"]
      Value_outcomes [of "SetDataLoader (Some newLoader) world3" "''q''" "[]" 6 6 6 "[''a'', ''b'', ''c'', ''q'']"]
    by simp
qed

subsection \<open>Adding an item\<close>

lemma Add_fst [simp]: "fst (Add k ls d t1 t2 t3 ks w) = nextAddr (heap w)"
  by (simp add: Add_def NewCacheItem_def)

lemma Add_snd:
  "snd (Add k ls d t1 t2 t3 ks w) =
     (if 0 < ls \<and> (cleanupInterval (table w) = 0 \<or> ls < cleanupInterval (table w))
      then expirationCheck t2 t3 ks (inserted k ls d t1 w)
      else inserted k ls d t1 w)"
  by (cases "addedItem (table w)")
     (auto simp: Add_def addInternal_def NewCacheItem_def inserted_def invoke_def Let_def)

lemma inserted_heap [simp]: "heap (inserted k ls d t1 w) = snd (NewCacheItem k ls d t1 (heap w))"
  by (simp add: inserted_def invoke_def Let_def split: option.splits)

lemma inserted_items [simp]:
  "items (table (inserted k ls d t1 w)) = (items (table w))(k \<mapsto> nextAddr (heap w))"
  by (simp add: inserted_def invoke_def Let_def split: option.splits)

lemma inserted_fields [simp]:
  "cleanupTimer (table (inserted k ls d t1 w)) = cleanupTimer (table w)"
  "cleanupInterval (table (inserted k ls d t1 w)) = cleanupInterval (table w)"
  "loadData (table (inserted k ls d t1 w)) = loadData (table w)"
  "addedItem (table (inserted k ls d t1 w)) = addedItem (table w)"
  "aboutToDeleteItem (table (inserted k ls d t1 w)) = aboutToDeleteItem (table w)"
  by (simp_all add: inserted_def invoke_def Let_def split: option.splits)


lemma new_cells_new [simp]:
  "cells (snd (NewCacheItem k ls d t h)) (nextAddr h) =
     \<lparr>key = k, data = d, lifeSpan = ls, createdOn = t, accessedOn = t,
      accessCount = 0, aboutToExpire = None\<rparr>"
  by (simp add: NewCacheItem_def)

lemma new_cells_old [simp]:
  "a \<noteq> nextAddr h \<Longrightarrow> cells (snd (NewCacheItem k ls d t h)) a = cells h a"
  by (simp add: NewCacheItem_def)

lemma new_nextAddr [simp]: "nextAddr (snd (NewCacheItem k ls d t h)) = Suc (nextAddr h)"
  by (simp add: NewCacheItem_def)

lemma expired_inserted_new:
  "expired t2 (inserted k ls d t1 w) k = (ls \<noteq> 0 \<and> ls \<le> t2 - t1)"
  by (simp add: expired_def)

lemma Add_items_new:
  "k \<in> set ks \<Longrightarrow>
   items (table (snd (Add k ls d t1 t2 t3 ks w))) k =
     (if 0 < ls \<and> (cleanupInterval (table w) = 0 \<or> ls < cleanupInterval (table w))
         \<and> ls \<le> t2 - t1
      then None else Some (nextAddr (heap w)))"
  by (simp add: Add_snd check_items expired_inserted_new)

lemma Add_heap [simp]:
  "heap (snd (Add k ls d t1 t2 t3 ks w)) = snd (NewCacheItem k ls d t1 (heap w))"
  by (simp add: Add_snd)


lemma Value_miss_loaded:
  assumes "items (table w) k = None" and "loadData (table w) = Some f"
    and "f k args (heap w) = (Some item, h)"
  shows "Value k args t1 t2 t3 ks w =
           (Inr item,
            snd (Add k (lifeSpan (cells h item)) (data (cells h item)) t1 t2 t3 ks
                   ((invoke (LoadDataCall k args) w)\<lparr>heap := h\<rparr>)))"
  using assms by (simp add: Value_def Let_def)

lemma invoke_fields [simp]:
  "table (invoke c w) = table w" "heap (invoke c w) = heap w"
  by (simp_all add: invoke_def)

lemma deleteInternal_locked_erase [simp]:
  "fst (deleteInternal_locked k w) = deleteInternal k w"
  by (simp add: deleteInternal_locked_def deleteInternal_def Let_def split: option.splits)

lemma expirationLoop_locked_erase [simp]:
  "fst (expirationLoop_locked now ks (sd, w)) = expirationLoop now ks (sd, w)"
  by (induction ks arbitrary: sd w)
     (simp_all add: Let_def case_prod_beta split: option.splits)

lemma expirationCheck_locked_erase [simp]:
  "fst (expirationCheck_locked now arm ks w) = expirationCheck now arm ks w"
proof -
  let ?w1 = "w\<lparr>table := (table w)\<lparr>cleanupTimer := stopTimer (cleanupTimer (table w))\<rparr>\<rparr>"
  have "fst (expirationLoop_locked now ks (0, ?w1)) = expirationLoop now ks (0, ?w1)"
    by (rule expirationLoop_locked_erase)
  then show ?thesis
    by (simp add: expirationCheck_locked_def expirationCheck_def Let_def case_prod_beta)
qed

lemma addInternal_locked_erase [simp]:
  "fst (addInternal_locked item t2 t3 ks w) = addInternal item t2 t3 ks w"
  by (auto simp: addInternal_locked_def addInternal_def Let_def case_prod_beta
           split: option.splits)

lemma addInternal_locked_events:
  "\<exists>rest. snd (addInternal_locked item t2 t3 ks w) =
            Store (key (cells (heap w) item)) item # Unlock # rest"
  by (simp add: addInternal_locked_def Let_def case_prod_beta)

lemma Add_locked_erase [simp]:
  "fst (Add_locked k ls d t1 t2 t3 ks w) = Add k ls d t1 t2 t3 ks w"
  by (simp add: Add_locked_def Add_def Let_def case_prod_beta)




lemma Exists_then_Add_releases_between:
  "\<exists>rest. snd (Exists_locked k w) @ snd (Add_locked k ls d t1 t2 t3 ks w) =
           RLock # Lookup k # RUnlock # Lock # Store k (nextAddr (heap w)) # Unlock # rest"
proof -
  let ?h = "snd (NewCacheItem k ls d t1 (heap w))"
  obtain rest where "snd (addInternal_locked (nextAddr (heap w)) t2 t3 ks (w\<lparr>heap := ?h\<rparr>)) =
      Store (key (cells (heap (w\<lparr>heap := ?h\<rparr>)) (nextAddr (heap w)))) (nextAddr (heap w))
        # Unlock # rest"
    using addInternal_locked_events [of "nextAddr (heap w)" t2 t3 ks "w\<lparr>heap := ?h\<rparr>"] by blast
  then show ?thesis
    by (simp add: Exists_locked_def Add_locked_def NewCacheItem_def case_prod_beta)
qed



subsection \<open>Value on a stored key\<close>

text \<open>
  Claim C6. \<^verbatim>\<open>Value\<close> on a present key returns the stored item and no error; it changes
  nothing but that item, whose \<^verbatim>\<open>accessedOn\<close> becomes the clock reading \<open>t1\<close> and whose
  \<^verbatim>\<open>accessCount\<close> grows by one; and the deadline moves to a full life span after the
  access: a later expiration check removes the key exactly when the item has a nonzero
  life span and the check's clock reading is at least \<open>t1 + lifeSpan\<close>.
\<close>

theorem Value_hit_keeps_alive:
  assumes "items (table w) k = Some r"
  shows "fst (Value k args t1 t2 t3 ks w) = Inr r
       \<and> table (snd (Value k args t1 t2 t3 ks w)) = table w
       \<and> trace (snd (Value k args t1 t2 t3 ks w)) = trace w
       \<and> cells (heap (snd (Value k args t1 t2 t3 ks w))) r =
           (cells (heap w) r)\<lparr>accessedOn := t1,
                               accessCount := accessCount (cells (heap w) r) + 1\<rparr>
       \<and> (\<forall>a. a \<noteq> r \<longrightarrow> cells (heap (snd (Value k args t1 t2 t3 ks w))) a = cells (heap w) a)
       \<and> (\<forall>now ks'. k \<in> set ks' \<longrightarrow>
            (items (table (expirationCheck now arm ks' (snd (Value k args t1 t2 t3 ks w)))) k = None)
            = (lifeSpan (cells (heap w) r) \<noteq> 0 \<and> t1 + lifeSpan (cells (heap w) r) \<le> now))"
proof -
  have v: "Value k args t1 t2 t3 ks w = (Inr r, w\<lparr>heap := KeepAlive r t1 (heap w)\<rparr>)"
    using assms by (simp add: Value_def)
  have e: "expired now (w\<lparr>heap := KeepAlive r t1 (heap w)\<rparr>) k =
           (lifeSpan (cells (heap w) r) \<noteq> 0 \<and> t1 + lifeSpan (cells (heap w) r) \<le> now)" for now
    using assms by (auto simp: expired_def KeepAlive_def)
  show ?thesis
    using assms by (simp add: v check_items e) (simp add: KeepAlive_def)
qed

theorem Value_hit_keeps_alive_witness:
  "items (table world3) ''a'' = Some 0
   \<and> fst (Value ''a'' [] 6 6 6 [''a'', ''b'', ''c''] world3) = Inr 0
   \<and> accessedOn (cells (heap (snd (Value ''a'' [] 6 6 6 [''a'', ''b'', ''c''] world3))) 0) = 6
   \<and> accessCount (cells (heap (snd (Value ''a'' [] 6 6 6 [''a'', ''b'', ''c''] world3))) 0) = 6
   \<and> items (table (expirationCheck 15 15 [''a'', ''b'', ''c'']
              (snd (Value ''a'' [] 6 6 6 [''a'', ''b'', ''c''] world3)))) ''a'' = Some 0
   \<and> items (table (expirationCheck 16 16 [''a'', ''b'', ''c'']
              (snd (Value ''a'' [] 6 6 6 [''a'', ''b'', ''c''] world3)))) ''a'' = None"
proof -
  have h: "items (table world3) ''a'' = Some 0" by (simp add: world3_def)
  have c: "lifeSpan (cells (heap world3) 0) = 10" "accessCount (cells (heap world3) 0) = 5"
    by (simp_all add: world3_def)
  have "items (table (expirationCheck 15 15 [''a'', ''b'', ''c'']
              (snd (Value ''a'' [] 6 6 6 [''a'', ''b'', ''c''] world3)))) ''a'' \<noteq> None"
    using Value_hit_keeps_alive [OF h, of "[]" 6 6 6 "[''a'', ''b'', ''c'']"] c by simp
  moreover have "table (snd (Value ''a'' [] 6 6 6 [''a'', ''b'', ''c''] world3)) = table world3"
    using Value_hit_keeps_alive [OF h, of "[]" 6 6 6 "[''a'', ''b'', ''c'']"] by simp
  ultimately have "items (table (expirationCheck 15 15 [''a'', ''b'', ''c'']
              (snd (Value ''a'' [] 6 6 6 [''a'', ''b'', ''c''] world3)))) ''a'' = Some 0"
    using h by (simp add: check_items split: if_splits)
  then show ?thesis
    using h c Value_hit_keeps_alive [OF h, of "[]" 6 6 6 "[''a'', ''b'', ''c'']"] by simp
qed

subsection \<open>Value through the loader\<close>

lemma runChecks_Nil [simp]: "runChecks [] w = w"
  by (simp add: runChecks_def)

lemma runChecks_Cons [simp]:
  "runChecks (c # cs) w = runChecks cs (expirationCheck (fst c) (fst (snd c)) (snd (snd c)) w)"
  by (simp add: runChecks_def)

lemma runChecks_heap [simp]: "heap (runChecks cs w) = heap w"
  by (induction cs arbitrary: w) simp_all

lemma runChecks_loadData [simp]: "loadData (table (runChecks cs w)) = loadData (table w)"
  by (induction cs arbitrary: w) simp_all










text \<open>
  Claim C10, as amended. When \<^verbatim>\<open>Value\<close> is served by the loader, it returns the loader's
  own item, and that item is not inserted: a key holds it afterwards only if it held it
  before. The table stores, at a new address, a newly made item with the key that was
  looked up, the life span and data of the loader's item, both time stamps the clock
  reading \<open>t1\<close>, access count 0 and no callback (provided it has not expired by the
  clock reading of the expiration check inside \<^verbatim>\<open>Add\<close>). \<^verbatim>\<open>KeepAlive\<close> and
  \<^verbatim>\<open>SetAboutToExpireCallback\<close> on the returned item leave the stored item as it is.
\<close>

theorem Value_loader_item_not_stored:
  assumes "items (table w) k = None" and "loadData (table w) = Some f"
    and "f k args (heap w) = (Some item, h)"
    and "item < nextAddr h"
    and "k \<in> set ks"
    and "\<not> (0 < lifeSpan (cells h item) \<and> lifeSpan (cells h item) \<le> t2 - t1)"
  shows "fst (Value k args t1 t2 t3 ks w) = Inr item
       \<and> items (table (snd (Value k args t1 t2 t3 ks w))) k = Some (nextAddr h)
       \<and> nextAddr h \<noteq> item
       \<and> (\<forall>k'. items (table (snd (Value k args t1 t2 t3 ks w))) k' = Some item \<longrightarrow>
                items (table w) k' = Some item)
       \<and> cells (heap (snd (Value k args t1 t2 t3 ks w))) (nextAddr h) =
           \<lparr>key = k, data = data (cells h item), lifeSpan = lifeSpan (cells h item),
            createdOn = t1, accessedOn = t1, accessCount = 0, aboutToExpire = None\<rparr>
       \<and> (\<forall>t. cells (KeepAlive item t (heap (snd (Value k args t1 t2 t3 ks w)))) (nextAddr h) =
               cells (heap (snd (Value k args t1 t2 t3 ks w))) (nextAddr h))
       \<and> (\<forall>g. cells (SetAboutToExpireCallback item g (heap (snd (Value k args t1 t2 t3 ks w))))
                 (nextAddr h) =
               cells (heap (snd (Value k args t1 t2 t3 ks w))) (nextAddr h))"
proof -
  let ?w1 = "(invoke (LoadDataCall k args) w)\<lparr>heap := h\<rparr>"
  let ?w' = "snd (Value k args t1 t2 t3 ks w)"
  have v: "Value k args t1 t2 t3 ks w =
           (Inr item, snd (Add k (lifeSpan (cells h item)) (data (cells h item)) t1 t2 t3 ks ?w1))"
    using assms(1-3) by (rule Value_miss_loaded)
  have ne: "nextAddr h \<noteq> item" using assms(4) by simp
  have i: "items (table ?w') k = Some (nextAddr h)"
    using assms(5,6) by (simp add: v Add_items_new)
  have s: "items (table w) k' = Some item" if "items (table ?w') k' = Some item" for k'
    using that ne by (auto simp: v Add_snd check_items split: if_splits)
  have c: "cells (heap ?w') (nextAddr h) =
           \<lparr>key = k, data = data (cells h item), lifeSpan = lifeSpan (cells h item),
            createdOn = t1, accessedOn = t1, accessCount = 0, aboutToExpire = None\<rparr>"
    by (simp add: v)
  have ka: "cells (KeepAlive item t (heap ?w')) (nextAddr h) = cells (heap ?w') (nextAddr h)" for t
    using ne by (simp add: KeepAlive_def)
  have sc: "cells (SetAboutToExpireCallback item g (heap ?w')) (nextAddr h) =
            cells (heap ?w') (nextAddr h)" for g
    using ne by (simp add: SetAboutToExpireCallback_def)
  show ?thesis using v ne i s c ka sc by simp
qed

theorem Value_loader_item_not_stored_witness:
  "items (table worldLoad0) ''x'' = None \<and> loadData (table worldLoad0) = Some newLoader
   \<and> fst (newLoader ''x'' [] (heap worldLoad0)) = Some 0
   \<and> fst (Value ''x'' [] 6 7 7 [''x''] worldLoad0) = Inr 0
   \<and> items (table (snd (Value ''x'' [] 6 7 7 [''x''] worldLoad0))) ''x'' = Some 1
   \<and> accessCount (cells (KeepAlive 0 9 (heap (snd (Value ''x'' [] 6 7 7 [''x''] worldLoad0)))) 1)
       = 0
   \<and> accessedOn (cells (KeepAlive 0 9 (heap (snd (Value ''x'' [] 6 7 7 [''x''] worldLoad0)))) 1)
       = 6
   \<and> aboutToExpire (cells (SetAboutToExpireCallback 0 (Some 2)
         (heap (snd (Value ''x'' [] 6 7 7 [''x''] worldLoad0)))) 1) = None"
proof -
  let ?h = "snd (NewCacheItem ''x'' 0 ''loaded x'' 4 (heap worldLoad0))"
  have a: "items (table worldLoad0) ''x'' = None" "loadData (table worldLoad0) = Some newLoader"
    by (simp_all add: worldLoad0_def SetDataLoader_def world0_def Cache_def)
  have l: "newLoader ''x'' [] (heap worldLoad0) = (Some 0, ?h)"
    by (simp add: worldLoad0_def SetDataLoader_def world0_def newLoader_def NewCacheItem_def)
  have n: "nextAddr ?h = 1" "lifeSpan (cells ?h 0) = 0"
    by (simp_all add: worldLoad0_def SetDataLoader_def world0_def NewCacheItem_def)
  have v: "0 < nextAddr ?h" using n by simp
  have k: "''x'' \<in> set [''x'']" by simp
  have e: "\<not> (0 < lifeSpan (cells ?h 0) \<and> lifeSpan (cells ?h 0) \<le> 7 - 6)"
    using n by simp
  show ?thesis
    using a l n Value_loader_item_not_stored [OF a l v k e] by simp
qed

text \<open>
  Claim C10 as stated fails where the loader's item carries another key than the one
  looked up: the stored item has the key of the lookup, not the same key as the
  loader's item.
\<close>

theorem Value_stored_item_key_differs:
  "items (table worldOther3) ''q'' = None
   \<and> fst (Value ''q'' [] 6 6 6 [''a'', ''b'', ''c'', ''q''] worldOther3) = Inr 3
   \<and> items (table (snd (Value ''q'' [] 6 6 6 [''a'', ''b'', ''c'', ''q''] worldOther3))) ''q''
       = Some 4
   \<and> key (cells (heap (snd (Value ''q'' [] 6 6 6 [''a'', ''b'', ''c'', ''q''] worldOther3))) 3)
       = ''other''
   \<and> key (cells (heap (snd (Value ''q'' [] 6 6 6 [''a'', ''b'', ''c'', ''q''] worldOther3))) 4)
       = ''q''"
  by (simp add: worldOther3_def Value_def Add_def addInternal_def NewCacheItem_def expirationCheck_def
        deleteInternal_def invoke_def stopTimer_def Let_def SetDataLoader_def Cache_def
        world0_def world3_def blank_def newLoader_def otherLoader_def)

subsection \<open>The most accessed items\<close>

lemma set_insertPair [simp]: "set (insertPair x xs) = insert x (set xs)"
  by (induction xs) auto

lemma length_insertPair [simp]: "length (insertPair x xs) = Suc (length xs)"
  by (induction xs) auto

lemma sorted_insertPair:
  "sorted_wrt (\<lambda>p q. \<not> Less q p) xs \<Longrightarrow> sorted_wrt (\<lambda>p q. \<not> Less q p) (insertPair x xs)"
  by (induction xs) (auto simp: Less_def)

lemma set_sort_Sort [simp]: "set (sort_Sort p) = set p"
  by (induction p) (simp_all add: sort_Sort_def)

lemma length_sort_Sort [simp]: "length (sort_Sort p) = length p"
  by (induction p) (simp_all add: sort_Sort_def)

lemma sorted_sort_Sort: "sorted_wrt (\<lambda>p q. \<not> Less q p) (sort_Sort p)"
proof (induction p)
  case Nil
  then show ?case by (simp add: sort_Sort_def)
next
  case (Cons x p)
  then show ?case using sorted_insertPair [of "sort_Sort p" x] by (simp add: sort_Sort_def)
qed

lemma pairList_present:
  "p \<in> set (pairList w ks) \<Longrightarrow>
   \<exists>v. items (table w) (Key p) = Some v \<and> AccessCount p = accessCount (cells (heap w) v)"
  by (induction ks) (auto split: option.splits)

lemma pairList_keys:
  "set ks \<subseteq> dom (items (table w)) \<Longrightarrow> map Key (pairList w ks) = ks"
  by (induction ks) (auto split: option.splits)

lemma topItems_take:
  "\<forall>v \<in> set vs. items (table w) (Key v) \<noteq> None \<Longrightarrow>
   topItems w c n vs = take (nat (n - c)) (map (\<lambda>v. the (items (table w) (Key v))) vs)"
proof (induction vs arbitrary: c)
  case Nil
  then show ?case by simp
next
  case (Cons v vs)
  show ?case
  proof (cases "n \<le> c")
    case True
    then show ?thesis by simp
  next
    case False
    then have n: "nat (n - c) = Suc (nat (n - (c + 1)))" by simp
    from Cons.prems obtain item where i: "items (table w) (Key v) = Some item" by auto
    have "topItems w (c + 1) n vs =
          take (nat (n - (c + 1))) (map (\<lambda>v. the (items (table w) (Key v))) vs)"
      using Cons.prems by (intro Cons.IH) simp
    then show ?thesis using False i by (simp add: n)
  qed
qed

lemma MostAccessed_take:
  "MostAccessed n ks w =
     take (nat n) (map (\<lambda>v. the (items (table w) (Key v))) (sort_Sort (pairList w ks)))"
proof -
  have "\<forall>v \<in> set (sort_Sort (pairList w ks)). items (table w) (Key v) \<noteq> None"
    using pairList_present [of _ w ks] by auto
  then show ?thesis by (simp add: MostAccessed_def topItems_take)
qed

lemma sorted_full:
  "sorted_wrt (\<lambda>a b. countOf w b \<le> countOf w a)
     (map (\<lambda>v. the (items (table w) (Key v))) (sort_Sort (pairList w ks)))"
proof -
  have "sorted_wrt (\<lambda>p q. countOf w (the (items (table w) (Key q)))
                          \<le> countOf w (the (items (table w) (Key p))))
          (sort_Sort (pairList w ks))"
  proof (rule sorted_wrt_mono_rel [OF _ sorted_sort_Sort])
    fix p q
    assume "p \<in> set (sort_Sort (pairList w ks))" "q \<in> set (sort_Sort (pairList w ks))"
      and l: "\<not> Less q p"
    then obtain u v where "items (table w) (Key p) = Some u"
      "AccessCount p = accessCount (cells (heap w) u)"
      "items (table w) (Key q) = Some v" "AccessCount q = accessCount (cells (heap w) v)"
      using pairList_present [of p w ks] pairList_present [of q w ks] by auto
    then show "countOf w (the (items (table w) (Key q))) \<le> countOf w (the (items (table w) (Key p)))"
      using l by (simp add: Less_def countOf_def)
  qed
  then show ?thesis by (simp add: sorted_wrt_map)
qed

lemma set_full:
  assumes "set ks = dom (items (table w))"
  shows "set (map (\<lambda>v. the (items (table w) (Key v))) (sort_Sort (pairList w ks)))
         = ran (items (table w))"
proof -
  have k: "Key ` set (pairList w ks) = set ks"
    using pairList_keys [of ks w] assms by (metis order_refl set_map)
  have "set (map (\<lambda>v. the (items (table w) (Key v))) (sort_Sort (pairList w ks)))
        = (\<lambda>k. the (items (table w) k)) ` (Key ` set (pairList w ks))"
    by (simp add: image_image)
  also have "\<dots> = (\<lambda>k. the (items (table w) k)) ` dom (items (table w))"
    using k assms by simp
  also have "\<dots> = ran (items (table w))"
    by (auto simp: ran_def dom_def image_iff) force
  finally show ?thesis .
qed

lemma length_full:
  assumes "distinct ks" and "set ks = dom (items (table w))"
  shows "length (sort_Sort (pairList w ks)) = card (dom (items (table w)))"
proof -
  have "length (pairList w ks) = length (map Key (pairList w ks))" by simp
  also have "\<dots> = length ks" using pairList_keys [of ks w] assms(2) by simp
  also have "\<dots> = card (dom (items (table w)))"
    using assms distinct_card [of ks] by simp
  finally show ?thesis by simp
qed

lemma perms3:
  assumes "distinct ks" and "set ks = {a, b, c}" and "a \<noteq> b" and "a \<noteq> c" and "b \<noteq> c"
  shows "ks \<in> {[a, b, c], [a, c, b], [b, a, c], [b, c, a], [c, a, b], [c, b, a]}"
proof -
  have "length ks = 3" using assms distinct_card [of ks] by simp
  then obtain x y z where ks: "ks = [x, y, z]"
    by (auto simp: numeral_3_eq_3 length_Suc_conv)
  have m: "x \<in> {a, b, c}" "y \<in> {a, b, c}" "z \<in> {a, b, c}"
    using assms(2) by (simp_all add: ks flip: assms(2))
  have d: "x \<noteq> y" "x \<noteq> z" "y \<noteq> z" using assms(1) by (simp_all add: ks)
  show ?thesis using m d unfolding ks by auto
qed

lemma MostAccessed_world3:
  "MostAccessed 2 [''a'', ''b'', ''c''] world3 = [0, 2]"
  "MostAccessed 2 [''a'', ''c'', ''b''] world3 = [0, 2]"
  "MostAccessed 2 [''b'', ''a'', ''c''] world3 = [0, 2]"
  "MostAccessed 2 [''b'', ''c'', ''a''] world3 = [0, 2]"
  "MostAccessed 2 [''c'', ''a'', ''b''] world3 = [0, 2]"
  "MostAccessed 2 [''c'', ''b'', ''a''] world3 = [0, 2]"
  by (simp_all add: MostAccessed_def sort_Sort_def Less_def world3_def)

lemma MostAccessed_world3_any_order:
  assumes "distinct ks" and "set ks = {''a'', ''b'', ''c''}"
  shows "MostAccessed 2 ks world3 = [0, 2]"
proof -
  have "ks \<in> {[''a'', ''b'', ''c''], [''a'', ''c'', ''b''], [''b'', ''a'', ''c''],
              [''b'', ''c'', ''a''], [''c'', ''a'', ''b''], [''c'', ''b'', ''a'']}"
    using assms by (intro perms3) simp_all
  then show ?thesis using MostAccessed_world3 by auto
qed

lemma MostAccessed_prefix_props:
  assumes "distinct ks" and "set ks = dom (items (table w))"
  shows "length (MostAccessed n ks w) = min (nat n) (card (dom (items (table w))))
       \<and> sorted_wrt (\<lambda>a b. countOf w b \<le> countOf w a) (MostAccessed n ks w)
       \<and> set (MostAccessed n ks w) \<subseteq> ran (items (table w))
       \<and> (\<forall>a \<in> ran (items (table w)). a \<notin> set (MostAccessed n ks w) \<longrightarrow>
            (\<forall>b \<in> set (MostAccessed n ks w). countOf w a \<le> countOf w b))"
proof -
  let ?full = "map (\<lambda>v. the (items (table w) (Key v))) (sort_Sort (pairList w ks))"
  have m: "MostAccessed n ks w = take (nat n) ?full" by (rule MostAccessed_take)
  have l: "length (MostAccessed n ks w) = min (nat n) (card (dom (items (table w))))"
    using length_full [OF assms] by (simp add: m min.commute)
  have s: "sorted_wrt (\<lambda>a b. countOf w b \<le> countOf w a) ?full" by (rule sorted_full)
  then have s1: "sorted_wrt (\<lambda>a b. countOf w b \<le> countOf w a) (MostAccessed n ks w)"
    unfolding m by (rule sorted_wrt_take)
  have r: "set (MostAccessed n ks w) \<subseteq> ran (items (table w))"
    using set_full [OF assms(2)] set_take_subset [of "nat n" ?full] by (simp add: m)
  have t: "countOf w a \<le> countOf w b"
    if "a \<in> ran (items (table w))" "a \<notin> set (MostAccessed n ks w)"
      "b \<in> set (MostAccessed n ks w)" for a b
  proof -
    have "a \<in> set ?full" using that(1) set_full [OF assms(2)] by simp
    then have "a \<in> set (take (nat n) ?full) \<union> set (drop (nat n) ?full)"
      by (metis append_take_drop_id set_append)
    then have d: "a \<in> set (drop (nat n) ?full)" using that(2) by (simp add: m)
    have "sorted_wrt (\<lambda>a b. countOf w b \<le> countOf w a) (take (nat n) ?full @ drop (nat n) ?full)"
      using s by simp
    then show ?thesis using d that(3) by (simp only: sorted_wrt_append m)
  qed
  show ?thesis using l s1 r t by blast
qed

text \<open>
  Claim C9. For every table, every order \<open>ks\<close> in which the range visits its keys and
  every \<open>n\<close>, \<^verbatim>\<open>MostAccessed(n)\<close> returns stored items, sorted in descending order of
  access count, \<open>min n (number of items)\<close> of them and none when \<open>n \<le> 0\<close>; no stored
  item left out has a higher count than a returned one. In particular, with three items
  read 5, 1 and 3 times, \<^verbatim>\<open>MostAccessed(2)\<close> is the item read 5 times and then the item
  read 3 times, in whatever order the range visits the keys.
\<close>

theorem MostAccessed_sorted_prefix:
  assumes "distinct ks" and "set ks = dom (items (table w))"
  shows "length (MostAccessed n ks w) = min (nat n) (card (dom (items (table w))))
       \<and> sorted_wrt (\<lambda>a b. countOf w b \<le> countOf w a) (MostAccessed n ks w)
       \<and> set (MostAccessed n ks w) \<subseteq> ran (items (table w))
       \<and> (\<forall>a \<in> ran (items (table w)). a \<notin> set (MostAccessed n ks w) \<longrightarrow>
            (\<forall>b \<in> set (MostAccessed n ks w). countOf w a \<le> countOf w b))
       \<and> (countOf world3 0 = 5 \<and> countOf world3 1 = 1 \<and> countOf world3 2 = 3
          \<and> (\<forall>ks'. distinct ks' \<and> set ks' = dom (items (table world3)) \<longrightarrow>
                MostAccessed 2 ks' world3 = [0, 2]))"
proof -
  have c: "countOf world3 0 = 5 \<and> countOf world3 1 = 1 \<and> countOf world3 2 = 3"
    by (simp add: countOf_def world3_def)
  have d: "dom (items (table world3)) = {''a'', ''b'', ''c''}"
    by (auto simp: world3_def)
  have e: "MostAccessed 2 ks' world3 = [0, 2]"
    if "distinct ks'" "set ks' = dom (items (table world3))" for ks'
    using that by (intro MostAccessed_world3_any_order) (simp_all add: d)
  show ?thesis using MostAccessed_prefix_props [OF assms, of n] c e by blast
qed

theorem MostAccessed_sorted_prefix_witness:
  "distinct [''b'', ''c'', ''a''] \<and> set [''b'', ''c'', ''a''] = dom (items (table world3))
   \<and> MostAccessed 2 [''b'', ''c'', ''a''] world3 = [0, 2]
   \<and> length (MostAccessed 5 [''b'', ''c'', ''a''] world3) = 3
   \<and> length (MostAccessed (- 1) [''b'', ''c'', ''a''] world3) = 0
   \<and> sorted_wrt (\<lambda>a b. countOf world3 b \<le> countOf world3 a)
        (MostAccessed 5 [''b'', ''c'', ''a''] world3)"
proof -
  have h: "distinct [''b'', ''c'', ''a'']" "set [''b'', ''c'', ''a''] = dom (items (table world3))"
    by (auto simp: world3_def)
  have c: "card (dom (items (table world3))) = 3"
    using h distinct_card [of "[''b'', ''c'', ''a'']"] by simp
  show ?thesis
    using h c MostAccessed_sorted_prefix [OF h, of 5] MostAccessed_sorted_prefix [OF h, of "- 1"]
    by simp
qed

subsection \<open>The invariant of the scheduler\<close>

















lemma wakeTime_stopTimer [simp]: "wakeTime (stopTimer tm) = None"
  by (cases tm) (simp_all add: stopTimer_def)






end
